theory Spec2Isabelle
  imports Complex_Main
begin

section \<open>The scalar autograd engine of \<^verbatim>\<open>core/value.py\<close>\<close>

text \<open>
  The class \<^verbatim>\<open>Value\<close> holds a scalar, its gradient, the set of its operands
  and a closure that pushes the node's gradient into the operands. Objects are
  compared by identity (the class defines neither \<^verbatim>\<open>__eq__\<close> nor
  \<^verbatim>\<open>__hash__\<close>), so the model keeps all objects in an arena: a list of nodes
  in allocation order, an object being its index. Allocation appends.

  Numbers are modelled by \<^typ>\<open>real\<close>: Python's \<^verbatim>\<open>int\<close> exactly, and
  \<^verbatim>\<open>float\<close> without rounding, overflow, infinities or NaN, so the
  \<^verbatim>\<open>OverflowError\<close> of \<^verbatim>\<open>**\<close> and \<^verbatim>\<open>math.exp\<close> does not come about.
  Statements about concrete scenarios use small dyadic numbers, on which binary64
  arithmetic is exact. The interpreter's recursion limit is not modelled either:
  \<^verbatim>\<open>build_topo\<close> recurses as deep as the graph is. The cosmetic fields
  \<^verbatim>\<open>_op\<close> and \<^verbatim>\<open>label\<close> are left out.
\<close>

subsection \<open>Errors and numbers\<close>

text \<open>
  \<^verbatim>\<open>AssertionError\<close> is raised by the \<^verbatim>\<open>assert\<close> of \<^verbatim>\<open>__pow__\<close>,
  \<^verbatim>\<open>ZeroDivisionError\<close> by Python's \<^verbatim>\<open>**\<close> on a zero base with a negative
  exponent. \<open>ComplexResult\<close> is no exception: for a negative base and a non-integral
  exponent \<^verbatim>\<open>**\<close> returns a complex number, which the real-valued data of
  this model cannot hold, so the model stops there.
\<close>

datatype error = AssertionError | ZeroDivisionError | ComplexResult

text \<open>Python's \<^verbatim>\<open>x ** k\<close> on numbers.\<close>

definition py_pow :: "real \<Rightarrow> real \<Rightarrow> error + real" where
  "py_pow x k =
     (if x = 0 \<and> k < 0 then Inl ZeroDivisionError
      else if k \<in> \<int> then Inr (x powi \<lfloor>k\<rfloor>)
      else if x < 0 then Inl ComplexResult
      else Inr (x powr k))"

subsection \<open>Nodes and the arena\<close>

text \<open>
  The closure stored in \<^verbatim>\<open>_backward\<close>, as a tag with the variables it captures:
  \<^verbatim>\<open>self\<close> and \<^verbatim>\<open>other\<close> (for \<^verbatim>\<open>__pow__\<close> the exponent, for
  \<^verbatim>\<open>tanh\<close> the local \<^verbatim>\<open>t\<close>). The captured \<^verbatim>\<open>out\<close> is the node
  that owns the closure. \<open>NoOp\<close> is \<^verbatim>\<open>lambda: None\<close>.
\<close>

datatype rule =
    NoOp
  | AddRule nat nat
  | MulRule nat nat
  | PowRule nat real
  | TanhRule nat real
  | ExpRule nat

record node =
  data :: real
  grad :: real
  prev :: "nat set"
  backward_rule :: rule

type_synonym store = "node list"

text \<open>
  An operand of an operator: \<^verbatim>\<open>isinstance(other, Value)\<close> is \<open>Ref\<close>,
  a plain \<^verbatim>\<open>int\<close> or \<^verbatim>\<open>float\<close> is \<open>Num\<close>.
\<close>

datatype operand = Num real | Ref nat

text \<open>
  \<^verbatim>\<open>Value(data, _children)\<close> followed by the assignment of the closure to
  \<^verbatim>\<open>out._backward\<close>: a new object with \<^verbatim>\<open>grad = 0.0\<close> and
  \<^verbatim>\<open>_prev = set(_children)\<close>.
\<close>

definition Value :: "store \<Rightarrow> real \<Rightarrow> nat list \<Rightarrow> rule \<Rightarrow> nat \<times> store" where
  "Value st d cs r =
     (length st, st @ [\<lparr>data = d, grad = 0, prev = set cs, backward_rule = r\<rparr>])"

text \<open>\<^verbatim>\<open>other if isinstance(other, Value) else Value(other)\<close>\<close>

definition promote :: "store \<Rightarrow> operand \<Rightarrow> nat \<times> store" where
  "promote st other = (case other of Ref r \<Rightarrow> (r, st) | Num c \<Rightarrow> Value st c [] NoOp)"

subsection \<open>The operations\<close>

definition value_add :: "store \<Rightarrow> nat \<Rightarrow> operand \<Rightarrow> nat \<times> store" where
  "value_add st self other =
     (case promote st other of
        (other', st1) \<Rightarrow>
          Value st1 (data (st1 ! self) + data (st1 ! other')) [self, other']
            (AddRule self other'))"

definition value_radd :: "store \<Rightarrow> nat \<Rightarrow> real \<Rightarrow> nat \<times> store" where
  "value_radd st self other = value_add st self (Num other)"

definition value_mul :: "store \<Rightarrow> nat \<Rightarrow> operand \<Rightarrow> nat \<times> store" where
  "value_mul st self other =
     (case promote st other of
        (other', st1) \<Rightarrow>
          Value st1 (data (st1 ! self) * data (st1 ! other')) [self, other']
            (MulRule self other'))"

definition value_rmul :: "store \<Rightarrow> nat \<Rightarrow> real \<Rightarrow> nat \<times> store" where
  "value_rmul st self other = value_mul st self (Num other)"

definition value_pow :: "store \<Rightarrow> nat \<Rightarrow> operand \<Rightarrow> error + nat \<times> store" where
  "value_pow st self other =
     (case other of
        Ref r \<Rightarrow> Inl AssertionError
      | Num k \<Rightarrow>
          (case py_pow (data (st ! self)) k of
             Inl e \<Rightarrow> Inl e
           | Inr d \<Rightarrow> Inr (Value st d [self] (PowRule self k))))"

definition value_neg :: "store \<Rightarrow> nat \<Rightarrow> nat \<times> store" where
  "value_neg st self = value_mul st self (Num (- 1))"

text \<open>
  \<^verbatim>\<open>self + (-other)\<close>: on a plain number the unary minus is Python's own,
  on a \<^verbatim>\<open>Value\<close> it is \<^verbatim>\<open>__neg__\<close>.
\<close>

definition value_sub :: "store \<Rightarrow> nat \<Rightarrow> operand \<Rightarrow> nat \<times> store" where
  "value_sub st self other =
     (case other of
        Num c \<Rightarrow> value_add st self (Num (- c))
      | Ref r \<Rightarrow> (case value_neg st r of (n, st1) \<Rightarrow> value_add st1 self (Ref n)))"

text \<open>
  \<^verbatim>\<open>other + (-self)\<close> with a plain number \<^verbatim>\<open>other\<close>: the number's own
  \<^verbatim>\<open>__add__\<close> returns \<^verbatim>\<open>NotImplemented\<close> for a \<^verbatim>\<open>Value\<close>, so Python
  calls \<^verbatim>\<open>__radd__\<close> of the negated node.
\<close>

definition value_rsub :: "store \<Rightarrow> nat \<Rightarrow> real \<Rightarrow> nat \<times> store" where
  "value_rsub st self other =
     (case value_neg st self of (n, st1) \<Rightarrow> value_radd st1 n other)"

text \<open>
  \<^verbatim>\<open>self * other**-1\<close>: on a plain number the power is Python's own,
  on a \<^verbatim>\<open>Value\<close> it is \<^verbatim>\<open>__pow__\<close>.
\<close>

definition value_truediv :: "store \<Rightarrow> nat \<Rightarrow> operand \<Rightarrow> error + nat \<times> store" where
  "value_truediv st self other =
     (case other of
        Num c \<Rightarrow>
          (case py_pow c (- 1) of
             Inl e \<Rightarrow> Inl e
           | Inr q \<Rightarrow> Inr (value_mul st self (Num q)))
      | Ref r \<Rightarrow>
          (case value_pow st r (Num (- 1)) of
             Inl e \<Rightarrow> Inl e
           | Inr (p, st1) \<Rightarrow> Inr (value_mul st1 self (Ref p))))"

text \<open>
  \<^verbatim>\<open>other * self**-1\<close> with a plain number \<^verbatim>\<open>other\<close>: the product is
  \<^verbatim>\<open>__rmul__\<close> of the power node.
\<close>

definition value_rtruediv :: "store \<Rightarrow> nat \<Rightarrow> real \<Rightarrow> error + nat \<times> store" where
  "value_rtruediv st self other =
     (case value_pow st self (Num (- 1)) of
        Inl e \<Rightarrow> Inl e
      | Inr (p, st1) \<Rightarrow> Inr (value_rmul st1 p other))"

definition value_tanh :: "store \<Rightarrow> nat \<Rightarrow> nat \<times> store" where
  "value_tanh st self =
     (let val = data (st ! self);
          t = (exp (2 * val) - 1) / (exp (2 * val) + 1)
      in Value st t [self] (TanhRule self t))"

definition value_exp :: "store \<Rightarrow> nat \<Rightarrow> nat \<times> store" where
  "value_exp st self =
     (let x = data (st ! self) in Value st (exp x) [self] (ExpRule self))"

subsection \<open>The gradient rules\<close>

text \<open>\<^verbatim>\<open>x.grad += d\<close>\<close>

definition add_grad :: "store \<Rightarrow> nat \<Rightarrow> real \<Rightarrow> store" where
  "add_grad st x d = st[x := (st ! x)\<lparr>grad := grad (st ! x) + d\<rparr>]"

text \<open>
  \<^verbatim>\<open>out._backward()\<close>: the statements of the closure in their order, every
  field read from the store as it is then.
\<close>

definition run_backward :: "store \<Rightarrow> nat \<Rightarrow> error + store" where
  "run_backward st out =
     (case backward_rule (st ! out) of
        NoOp \<Rightarrow> Inr st
      | AddRule self other \<Rightarrow>
          (let st1 = add_grad st self (grad (st ! out))
           in Inr (add_grad st1 other (grad (st1 ! out))))
      | MulRule self other \<Rightarrow>
          (let st1 = add_grad st self (data (st ! other) * grad (st ! out))
           in Inr (add_grad st1 other (data (st1 ! self) * grad (st1 ! out))))
      | PowRule self other \<Rightarrow>
          (case py_pow (data (st ! self)) (other - 1) of
             Inl e \<Rightarrow> Inl e
           | Inr p \<Rightarrow> Inr (add_grad st self ((other * p) * grad (st ! out))))
      | TanhRule self t \<Rightarrow> Inr (add_grad st self ((1 - t\<^sup>2) * grad (st ! out)))
      | ExpRule self \<Rightarrow> Inr (add_grad st self (data (st ! out) * grad (st ! out))))"

subsection \<open>The topological order and the backward pass\<close>

text \<open>
  \<^verbatim>\<open>for child in v._prev\<close> iterates a Python set, whose order is not specified.
  The order is a parameter \<open>iter\<close> of the model: \<open>iter v S\<close> is the list in which the
  operand set \<open>S\<close> of the node \<open>v\<close> is iterated (the set is never changed after the
  node is made, so the list is the same at every call). A reference outside the arena
  has no Python counterpart; it has no children.
\<close>

type_synonym iteration = "nat \<Rightarrow> nat set \<Rightarrow> nat list"

definition children :: "iteration \<Rightarrow> store \<Rightarrow> nat \<Rightarrow> nat list" where
  "children iter st v = (if v < length st then iter v (prev (st ! v)) else [])"

text \<open>
  \<^verbatim>\<open>build_topo\<close> with its two captured variables \<^verbatim>\<open>visited\<close> and
  \<^verbatim>\<open>topo\<close> passed as state; \<open>build_topo_children\<close> is its \<^verbatim>\<open>for\<close> loop.
\<close>

function build_topo ::
    "iteration \<Rightarrow> store \<Rightarrow> nat \<Rightarrow> nat set \<times> nat list \<Rightarrow> nat set \<times> nat list"
  and build_topo_children ::
    "iteration \<Rightarrow> store \<Rightarrow> nat list \<Rightarrow> nat set \<times> nat list
       \<Rightarrow> nat set \<times> nat list"
where
  "build_topo iter st v (visited, topo) =
     (if v \<notin> visited then
        (case build_topo_children iter st (children iter st v) (insert v visited, topo) of
           (visited', topo') \<Rightarrow> (visited', topo' @ [v]))
      else (visited, topo))"
| "build_topo_children iter st [] s = s"
| "build_topo_children iter st (child # rest) s =
     build_topo_children iter st rest (build_topo iter st child s)"
  by pat_completeness auto

lemma visited_mono_dom:
  "build_topo_build_topo_children_dom (Inl (iter, st, v, s)) \<Longrightarrow>
     fst s \<subseteq> fst (build_topo iter st v s)"
  "build_topo_build_topo_children_dom (Inr (iter, st, cs, s)) \<Longrightarrow>
     fst s \<subseteq> fst (build_topo_children iter st cs s)"
proof (induction iter st v s and iter st cs s rule: build_topo_build_topo_children.pinduct)
  case (1 iter st v visited topo)
  then show ?case
    by (auto simp: build_topo.psimps split: prod.splits)
next
  case (2 iter st s)
  then show ?case by (simp add: build_topo_children.psimps)
next
  case (3 iter st child rest s)
  then show ?case by (auto simp: build_topo_children.psimps)
qed

lemma card_unvisited_insert:
  "v \<notin> visited \<Longrightarrow> v < n \<Longrightarrow>
     card ({..<n::nat} - insert v visited) < card ({..<n} - visited)"
  by (intro psubset_card_mono) auto

lemma card_unvisited_mono:
  "visited \<subseteq> visited' \<Longrightarrow> card ({..<n::nat} - visited') \<le> card ({..<n} - visited)"
  by (intro card_mono) auto

text \<open>
  The traversal ends on every arena, cyclic ones included: a call either finds its
  node visited or marks one more node of the arena.
\<close>

termination build_topo
proof (relation "inv_image (less_than <*lex*> less_than)
    (\<lambda>x. case x of
       Inl (iter, st, v, s) \<Rightarrow> (card ({..<length st} - fst s), 1)
     | Inr (iter, st, cs, s) \<Rightarrow> (card ({..<length st} - fst s), 2 * length cs))",
    goal_cases)
  case 1
  show ?case by (intro wf_inv_image wf_lex_prod wf_less_than)
next
  case (2 iter st v visited topo)
  then show ?case
    using card_unvisited_insert [of v visited "length st"]
    by (simp add: children_def del: card_Diff_insert)
next
  case (3 iter st child rest s)
  show ?case by simp
next
  case (4 iter st child rest s)
  then have "fst s \<subseteq> fst (build_topo iter st child s)"
    by (rule visited_mono_dom(1))
  then have "card ({..<length st} - fst (build_topo iter st child s))
      \<le> card ({..<length st} - fst s)"
    by (rule card_unvisited_mono)
  then show ?case by auto
qed

declare build_topo.simps [simp del]

text \<open>
  \<^verbatim>\<open>for v in reversed(topo): v._backward()\<close>, stopping at the first exception
  (the gradients written until then stay in Python; the model returns the exception
  alone).
\<close>

fun replay :: "store \<Rightarrow> nat list \<Rightarrow> error + store" where
  "replay st [] = Inr st"
| "replay st (v # vs) =
     (case run_backward st v of Inl e \<Rightarrow> Inl e | Inr st' \<Rightarrow> replay st' vs)"

definition backward :: "iteration \<Rightarrow> store \<Rightarrow> nat \<Rightarrow> error + store" where
  "backward iter st self =
     (let topo = snd (build_topo iter st self ({}, []));
          st1 = st[self := (st ! self)\<lparr>grad := 1\<rparr>]
      in replay st1 (rev topo))"

subsection \<open>Vocabulary of the properties\<close>

text \<open>
  What is known of Python's set iteration: a finite set is listed completely and
  without repetition. \<open>sorted_iteration\<close> is one such order, for the examples.
\<close>

definition sorted_iteration :: iteration where
  "sorted_iteration v S = sorted_list_of_set S"

definition set_iteration :: "iteration \<Rightarrow> bool" where
  "set_iteration iter \<longleftrightarrow>
     (\<forall>v S. finite S \<longrightarrow> set (iter v S) = S \<and> distinct (iter v S))"

text \<open>The nodes a closure writes to.\<close>

fun rule_operands :: "rule \<Rightarrow> nat set" where
  "rule_operands NoOp = {}"
| "rule_operands (AddRule self other) = {self, other}"
| "rule_operands (MulRule self other) = {self, other}"
| "rule_operands (PowRule self k) = {self}"
| "rule_operands (TanhRule self t) = {self}"
| "rule_operands (ExpRule self) = {self}"

text \<open>
  Arenas as the operations build them: the operand set of a node is what its closure
  refers to, and every operand was allocated before the node. Such a graph is acyclic.
\<close>

definition wf_store :: "store \<Rightarrow> bool" where
  "wf_store st \<longleftrightarrow>
     (\<forall>v<length st. prev (st ! v) = rule_operands (backward_rule (st ! v)) \<and>
        (\<forall>c\<in>prev (st ! v). c < v))"

text \<open>The operand relation and the nodes reachable from a node through it.\<close>

definition edges :: "store \<Rightarrow> (nat \<times> nat) set" where
  "edges st = {(v, c). v < length st \<and> c \<in> prev (st ! v)}"

definition reachable :: "store \<Rightarrow> nat \<Rightarrow> nat set" where
  "reachable st v = {u. (v, u) \<in> (edges st)\<^sup>*}"

text \<open>Every operand of a node of the list stands strictly before the node.\<close>

definition topo_ordered :: "store \<Rightarrow> nat list \<Rightarrow> bool" where
  "topo_ordered st topo \<longleftrightarrow>
     (\<forall>i<length topo. \<forall>c\<in>prev (st ! (topo ! i)). \<exists>j<i. topo ! j = c)"

text \<open>
  The invariant of the traversal while it works below the bound \<open>B\<close>: the emitted
  nodes are visited, distinct and ordered, and a visited node below the bound is
  emitted already (the visited nodes not yet emitted are the callers on the stack).
\<close>

definition topo_inv :: "store \<Rightarrow> nat \<Rightarrow> nat set \<times> nat list \<Rightarrow> bool" where
  "topo_inv st B s \<longleftrightarrow>
     distinct (snd s) \<and> set (snd s) \<subseteq> fst s \<and> set (snd s) \<subseteq> {..<length st} \<and>
     (\<forall>u\<in>fst s. u < B \<longrightarrow> u \<in> set (snd s)) \<and> topo_ordered st (snd s)"

text \<open>
  What the closure of \<open>out\<close> adds to \<open>x.grad\<close> when \<open>out.grad\<close> is \<open>g\<close>:
  the local derivative of \<open>out\<close> with respect to \<open>x\<close> times \<open>g\<close>, one summand
  for each operand slot that \<open>x\<close> fills (nothing where the power of the rule raises:
  the replay stops there).
\<close>

definition contrib :: "store \<Rightarrow> nat \<Rightarrow> nat \<Rightarrow> real \<Rightarrow> real" where
  "contrib st out x g =
     (case backward_rule (st ! out) of
        NoOp \<Rightarrow> 0
      | AddRule self other \<Rightarrow> (if x = self then g else 0) + (if x = other then g else 0)
      | MulRule self other \<Rightarrow>
          (if x = self then data (st ! other) * g else 0) +
          (if x = other then data (st ! self) * g else 0)
      | PowRule self other \<Rightarrow>
          (if x = self
           then (case py_pow (data (st ! self)) (other - 1) of
                   Inl e \<Rightarrow> 0 | Inr p \<Rightarrow> (other * p) * g)
           else 0)
      | TanhRule self t \<Rightarrow> (if x = self then (1 - t\<^sup>2) * g else 0)
      | ExpRule self \<Rightarrow> (if x = self then data (st ! out) * g else 0))"

text \<open>
  The nodes of the graph below \<open>t\<close> that use \<open>x\<close> as an operand: the operations
  downstream of \<open>x\<close>.
\<close>

definition consumers :: "store \<Rightarrow> nat \<Rightarrow> nat \<Rightarrow> nat set" where
  "consumers st t x = {u \<in> reachable st t. x \<in> prev (st ! u)}"

text \<open>Two arenas that differ in gradients only.\<close>

definition same_graph :: "store \<Rightarrow> store \<Rightarrow> bool" where
  "same_graph st st' \<longleftrightarrow>
     length st' = length st \<and>
     (\<forall>v<length st. data (st' ! v) = data (st ! v) \<and> prev (st' ! v) = prev (st ! v) \<and>
        backward_rule (st' ! v) = backward_rule (st ! v))"

text \<open>An operand that is a node is a node of the arena.\<close>

definition valid_operand :: "store \<Rightarrow> operand \<Rightarrow> bool" where
  "valid_operand st other = (case other of Ref r \<Rightarrow> r < length st | Num c \<Rightarrow> True)"

text \<open>
  The arenas that a client can reach: from the empty arena by creating leaves, by the
  operations on nodes of the arena, and by writing the fields \<^verbatim>\<open>grad\<close> and
  \<^verbatim>\<open>data\<close> of a node, which are open to the client.
\<close>

inductive built :: "store \<Rightarrow> bool" where
  built_empty: "built []"
| built_Value: "built st \<Longrightarrow> built (snd (Value st d [] NoOp))"
| built_add: "built st \<Longrightarrow> self < length st \<Longrightarrow> valid_operand st other \<Longrightarrow>
    built (snd (value_add st self other))"
| built_radd: "built st \<Longrightarrow> self < length st \<Longrightarrow> built (snd (value_radd st self c))"
| built_mul: "built st \<Longrightarrow> self < length st \<Longrightarrow> valid_operand st other \<Longrightarrow>
    built (snd (value_mul st self other))"
| built_rmul: "built st \<Longrightarrow> self < length st \<Longrightarrow> built (snd (value_rmul st self c))"
| built_pow: "built st \<Longrightarrow> self < length st \<Longrightarrow> value_pow st self other = Inr (r, st') \<Longrightarrow>
    built st'"
| built_neg: "built st \<Longrightarrow> self < length st \<Longrightarrow> built (snd (value_neg st self))"
| built_sub: "built st \<Longrightarrow> self < length st \<Longrightarrow> valid_operand st other \<Longrightarrow>
    built (snd (value_sub st self other))"
| built_rsub: "built st \<Longrightarrow> self < length st \<Longrightarrow> built (snd (value_rsub st self c))"
| built_truediv: "built st \<Longrightarrow> self < length st \<Longrightarrow> valid_operand st other \<Longrightarrow>
    value_truediv st self other = Inr (r, st') \<Longrightarrow> built st'"
| built_rtruediv: "built st \<Longrightarrow> self < length st \<Longrightarrow>
    value_rtruediv st self c = Inr (r, st') \<Longrightarrow> built st'"
| built_tanh: "built st \<Longrightarrow> self < length st \<Longrightarrow> built (snd (value_tanh st self))"
| built_exp: "built st \<Longrightarrow> self < length st \<Longrightarrow> built (snd (value_exp st self))"
| built_set_grad: "built st \<Longrightarrow> built (st[x := (st ! x)\<lparr>grad := g\<rparr>])"
| built_set_data: "built st \<Longrightarrow> built (st[x := (st ! x)\<lparr>data := d\<rparr>])"

text \<open>
  The result \<open>res\<close> of an operation run on \<open>st\<close>: the arena is \<open>st\<close> with exactly
  \<open>k\<close> nodes appended, so every node of \<open>st\<close> is as it was, and the returned node is
  the last one allocated.
\<close>

definition allocates :: "store \<Rightarrow> nat \<times> store \<Rightarrow> nat \<Rightarrow> bool" where
  "allocates st res k \<longleftrightarrow>
     length (snd res) = length st + k \<and> take (length st) (snd res) = st \<and>
     Suc (fst res) = length (snd res)"

subsection \<open>The scenarios of the specification\<close>

text \<open>
  Each scenario is the program text of the specification, run on an arena that may
  hold other objects already; it returns the nodes it names and the arena.
  \<open>leaves ds\<close> is the arena after \<^verbatim>\<open>Value(d)\<close> for each \<open>d\<close> of \<open>ds\<close> in turn.
\<close>

definition leaves :: "real list \<Rightarrow> store" where
  "leaves ds = fold (\<lambda>d st. snd (Value st d [] NoOp)) ds []"

definition affine_scenario ::
    "store \<Rightarrow> (nat \<times> nat \<times> nat \<times> nat \<times> nat \<times> nat \<times> nat) \<times> store" where
  "affine_scenario st =
     (case Value st 2 [] NoOp of (a, s1) \<Rightarrow>
      case Value s1 (- 3) [] NoOp of (b, s2) \<Rightarrow>
      case Value s2 10 [] NoOp of (c, s3) \<Rightarrow>
      case value_mul s3 a (Ref b) of (d, s4) \<Rightarrow>
      case value_add s4 d (Ref c) of (e, s5) \<Rightarrow>
      case Value s5 (- 2) [] NoOp of (f, s6) \<Rightarrow>
      case value_mul s6 e (Ref f) of (L, s7) \<Rightarrow> ((a, b, c, d, e, f, L), s7))"

definition diamond_scenario :: "store \<Rightarrow> (nat \<times> nat \<times> nat) \<times> store" where
  "diamond_scenario st =
     (case Value st 2 [] NoOp of (x, s1) \<Rightarrow>
      case value_add s1 x (Ref x) of (y, s2) \<Rightarrow>
      case value_mul s2 y (Ref y) of (z, s3) \<Rightarrow> ((x, y, z), s3))"

definition square_scenario :: "store \<Rightarrow> (nat \<times> nat) \<times> store" where
  "square_scenario st =
     (case Value st 3 [] NoOp of (a, s1) \<Rightarrow>
      case value_mul s1 a (Ref a) of (b, s2) \<Rightarrow> ((a, b), s2))"

definition chain_scenario :: "store \<Rightarrow> (nat \<times> nat \<times> nat \<times> nat \<times> nat) \<times> store" where
  "chain_scenario st =
     (case Value st 2 [] NoOp of (a, s1) \<Rightarrow>
      case Value s1 3 [] NoOp of (b, s2) \<Rightarrow>
      case Value s2 10 [] NoOp of (c, s3) \<Rightarrow>
      case value_mul s3 a (Ref b) of (d, s4) \<Rightarrow>
      case value_add s4 d (Ref c) of (L, s5) \<Rightarrow> ((a, b, c, d, L), s5))"



section \<open>Properties\<close>

subsection \<open>The traversal\<close>

lemma finite_rule_operands: "finite (rule_operands r)"
  by (cases r) auto

lemma wf_store_prev_less: "wf_store st \<Longrightarrow> v < length st \<Longrightarrow> c \<in> prev (st ! v) \<Longrightarrow> c < v"
  by (auto simp: wf_store_def)

lemma wf_store_finite_prev: "wf_store st \<Longrightarrow> v < length st \<Longrightarrow> finite (prev (st ! v))"
  by (simp add: wf_store_def finite_rule_operands)

lemma set_children:
  "set_iteration iter \<Longrightarrow> wf_store st \<Longrightarrow> v < length st \<Longrightarrow>
     set (children iter st v) = prev (st ! v)"
  by (simp add: children_def set_iteration_def wf_store_finite_prev)

lemma reachable_refl: "v \<in> reachable st v"
  by (simp add: reachable_def)

lemma reachable_unfold:
  "v < length st \<Longrightarrow> reachable st v = insert v (\<Union>c\<in>prev (st ! v). reachable st c)"
proof (intro set_eqI iffI)
  fix u
  assume v: "v < length st" and "u \<in> reachable st v"
  then have "(v, u) \<in> (edges st)\<^sup>*" by (simp add: reachable_def)
  then show "u \<in> insert v (\<Union>c\<in>prev (st ! v). reachable st c)"
    by (cases rule: converse_rtranclE) (auto simp: edges_def reachable_def)
next
  fix u
  assume v: "v < length st" and "u \<in> insert v (\<Union>c\<in>prev (st ! v). reachable st c)"
  then show "u \<in> reachable st v"
    by (auto simp: reachable_def edges_def intro: converse_rtrancl_into_rtrancl)
qed

lemma reachable_le:
  assumes "wf_store st" and "u \<in> reachable st v"
  shows "u \<le> v"
proof -
  from assms(2) have "(v, u) \<in> (edges st)\<^sup>*" by (simp add: reachable_def)
  then show ?thesis
  proof (induction rule: rtrancl_induct)
    case base
    show ?case by simp
  next
    case (step y z)
    then have "z < y" using assms(1) by (auto simp: edges_def dest: wf_store_prev_less)
    with step show ?case by simp
  qed
qed

lemma topo_ordered_iff:
  "topo_ordered st topo \<longleftrightarrow> (\<forall>i<length topo. prev (st ! (topo ! i)) \<subseteq> set (take i topo))"
  unfolding topo_ordered_def
  by (auto simp: in_set_conv_nth subset_iff) (metis length_take min.absorb4 nth_take order.strict_trans)+

lemma topo_ordered_snoc:
  assumes "topo_ordered st topo" and "prev (st ! v) \<subseteq> set topo"
  shows "topo_ordered st (topo @ [v])"
  unfolding topo_ordered_iff
proof (intro allI impI)
  fix i
  assume i: "i < length (topo @ [v])"
  show "prev (st ! ((topo @ [v]) ! i)) \<subseteq> set (take i (topo @ [v]))"
  proof (cases "i < length topo")
    case True
    with assms(1) have "prev (st ! (topo ! i)) \<subseteq> set (take i topo)"
      by (simp add: topo_ordered_iff)
    with True show ?thesis by (simp add: nth_append)
  next
    case False
    with i have "i = length topo" by simp
    with assms(2) show ?thesis by simp
  qed
qed

lemma topo_ordered_closed:
  assumes "topo_ordered st topo" and "v \<in> set topo"
  shows "reachable st v \<subseteq> set topo"
proof
  fix u
  assume "u \<in> reachable st v"
  then have "(v, u) \<in> (edges st)\<^sup>*" by (simp add: reachable_def)
  then show "u \<in> set topo"
  proof (induction rule: rtrancl_induct)
    case base
    show ?case by (rule assms(2))
  next
    case (step y z)
    from step.IH obtain i where i: "i < length topo" "topo ! i = y"
      by (auto simp: in_set_conv_nth)
    with assms(1) have "prev (st ! y) \<subseteq> set (take i topo)"
      by (auto simp: topo_ordered_iff)
    moreover from step.hyps(2) have "z \<in> prev (st ! y)" by (simp add: edges_def)
    ultimately show ?case by (auto dest: in_set_takeD)
  qed
qed

lemma build_topo_correct:
  "wf_store st \<Longrightarrow> set_iteration iter \<Longrightarrow> v < length st \<Longrightarrow> v < B \<Longrightarrow> topo_inv st B s \<Longrightarrow>
     topo_inv st B (build_topo iter st v s) \<and>
     fst (build_topo iter st v s) = fst s \<union> reachable st v \<and>
     set (snd (build_topo iter st v s)) = set (snd s) \<union> reachable st v"
  "wf_store st \<Longrightarrow> set_iteration iter \<Longrightarrow> \<forall>c\<in>set cs. c < length st \<and> c < B \<Longrightarrow>
     topo_inv st B s \<Longrightarrow>
     topo_inv st B (build_topo_children iter st cs s) \<and>
     fst (build_topo_children iter st cs s) = fst s \<union> (\<Union>c\<in>set cs. reachable st c) \<and>
     set (snd (build_topo_children iter st cs s)) = set (snd s) \<union> (\<Union>c\<in>set cs. reachable st c)"
proof (induction iter st v s and iter st cs s arbitrary: B and B
    rule: build_topo_build_topo_children.induct)
  case (1 iter st v visited topo)
  note wf = \<open>wf_store st\<close> and it = \<open>set_iteration iter\<close> and v = \<open>v < length st\<close>
  note inv = \<open>topo_inv st B (visited, topo)\<close>
  show ?case
  proof (cases "v \<in> visited")
    case True
    with inv \<open>v < B\<close> have "v \<in> set topo" by (auto simp: topo_inv_def)
    with inv have "reachable st v \<subseteq> set topo"
      by (auto simp: topo_inv_def dest: topo_ordered_closed)
    moreover from inv have "set topo \<subseteq> visited" by (simp add: topo_inv_def)
    ultimately show ?thesis using True inv by (auto simp: build_topo.simps)
  next
    case False
    let ?cs = "children iter st v"
    let ?R = "\<Union>c\<in>set ?cs. reachable st c"
    have cs: "set ?cs = prev (st ! v)" using it wf v by (rule set_children)
    have cs_lt: "\<forall>c\<in>set ?cs. c < length st \<and> c < v"
      using cs wf v by (auto dest: wf_store_prev_less)
    have R_lt: "\<And>u. u \<in> ?R \<Longrightarrow> u < v"
      using cs_lt reachable_le [OF wf] by (fastforce simp: le_less_trans)
    have inv1: "topo_inv st v (insert v visited, topo)"
      using inv \<open>v < B\<close> by (auto simp: topo_inv_def)
    obtain visited' topo' where s': 
      "build_topo_children iter st ?cs (insert v visited, topo) = (visited', topo')"
      by (cases "build_topo_children iter st ?cs (insert v visited, topo)")
    note ih = "1.IH" [OF False wf it cs_lt inv1, unfolded s']
    from ih have inv': "topo_inv st v (visited', topo')" by blast
    from ih have vis': "visited' = insert v visited \<union> ?R" by simp
    from ih have set': "set topo' = set topo \<union> ?R" by simp
    have res: "build_topo iter st v (visited, topo) = (visited', topo' @ [v])"
      using False s' by (simp add: build_topo.simps)
    have reach: "reachable st v = insert v ?R"
      using v cs by (simp add: reachable_unfold)
    have "v \<notin> set topo" using inv False by (auto simp: topo_inv_def)
    then have notin: "v \<notin> set topo'" using set' R_lt by auto
    have "prev (st ! v) \<subseteq> set topo'"
      using cs set' by (auto intro: reachable_refl)
    with inv' have ord: "topo_ordered st (topo' @ [v])"
      by (auto simp: topo_inv_def intro: topo_ordered_snoc)
    have "topo_inv st B (visited', topo' @ [v])"
      unfolding topo_inv_def
      using inv' inv notin ord v vis' set' by (auto simp: topo_inv_def)
    then show ?thesis
      unfolding res using vis' set' reach by auto
  qed
next
  case (2 iter st s)
  then show ?case by simp
next
  case (3 iter st child rest s)
  let ?s1 = "build_topo iter st child s"
  from "3.prems" have c: "child < length st" "child < B"
    and rest: "\<forall>c\<in>set rest. c < length st \<and> c < B" by auto
  note ih1 = "3.IH"(1) [OF "3.prems"(1,2) c "3.prems"(4)]
  from ih1 have inv1: "topo_inv st B ?s1" by blast
  from ih1 have vis1: "fst ?s1 = fst s \<union> reachable st child" by blast
  from ih1 have set1: "set (snd ?s1) = set (snd s) \<union> reachable st child" by blast
  from "3.IH"(2) [OF "3.prems"(1,2) rest inv1]
  show ?case using vis1 set1 by auto
qed

subsection \<open>The backward pass\<close>

lemma same_graph_refl: "same_graph st st"
  by (simp add: same_graph_def)

lemma same_graph_trans: "same_graph st st1 \<Longrightarrow> same_graph st1 st2 \<Longrightarrow> same_graph st st2"
  by (simp add: same_graph_def)

lemma length_add_grad: "length (add_grad st x d) = length st"
  by (simp add: add_grad_def)

lemma grad_add_grad:
  "v < length st \<Longrightarrow> grad (add_grad st x d ! v) = grad (st ! v) + (if v = x then d else 0)"
  by (cases "v = x") (simp_all add: add_grad_def)

lemma data_add_grad: "v < length st \<Longrightarrow> data (add_grad st x d ! v) = data (st ! v)"
  by (cases "v = x") (simp_all add: add_grad_def)

lemma prev_add_grad: "v < length st \<Longrightarrow> prev (add_grad st x d ! v) = prev (st ! v)"
  by (cases "v = x") (simp_all add: add_grad_def)

lemma rule_add_grad:
  "v < length st \<Longrightarrow> backward_rule (add_grad st x d ! v) = backward_rule (st ! v)"
  by (cases "v = x") (simp_all add: add_grad_def)

lemma same_graph_add_grad: "same_graph st (add_grad st x d)"
  by (simp add: same_graph_def data_add_grad prev_add_grad rule_add_grad length_add_grad)

lemma wf_store_same_graph: "same_graph st st' \<Longrightarrow> wf_store st \<Longrightarrow> wf_store st'"
  by (simp add: same_graph_def wf_store_def)

lemma contrib_same_graph:
  assumes "same_graph st st'" and "wf_store st" and "u < length st"
  shows "contrib st' u x g = contrib st u x g"
proof -
  have ops: "\<forall>c\<in>rule_operands (backward_rule (st ! u)). c < length st"
    using assms(2,3) by (fastforce simp: wf_store_def)
  show ?thesis
    using assms(1,3) ops
    by (cases "backward_rule (st ! u)") (auto simp: contrib_def same_graph_def)
qed

lemma contrib_not_operand:
  "x \<notin> rule_operands (backward_rule (st ! u)) \<Longrightarrow> contrib st u x g = 0"
  by (cases "backward_rule (st ! u)") (auto simp: contrib_def)

lemma run_backward_effect:
  assumes "wf_store st" and "u < length st" and "run_backward st u = Inr st1"
  shows "same_graph st st1"
    and "\<forall>x<length st. grad (st1 ! x) = grad (st ! x) + contrib st u x (grad (st ! u))"
proof -
  have ops: "\<forall>c\<in>rule_operands (backward_rule (st ! u)). c < u"
    using assms(1,2) by (fastforce simp: wf_store_def)
  show "same_graph st st1"
    using assms(3)
    by (cases "backward_rule (st ! u)")
       (auto simp: run_backward_def Let_def same_graph_refl same_graph_add_grad
             intro: same_graph_trans [OF same_graph_add_grad same_graph_add_grad]
             split: sum.splits)
  show "\<forall>x<length st. grad (st1 ! x) = grad (st ! x) + contrib st u x (grad (st ! u))"
    using assms(2,3) ops
    by (cases "backward_rule (st ! u)")
       (auto simp: run_backward_def Let_def contrib_def grad_add_grad data_add_grad
             length_add_grad split: sum.splits)
qed

lemma topo_ordered_butlast:
  assumes "topo_ordered st (ts @ [u])"
  shows "topo_ordered st ts" and "prev (st ! u) \<subseteq> set ts"
proof -
  show "topo_ordered st ts"
    unfolding topo_ordered_iff
  proof (intro allI impI)
    fix i assume i: "i < length ts"
    with assms have "prev (st ! ((ts @ [u]) ! i)) \<subseteq> set (take i (ts @ [u]))"
      by (simp add: topo_ordered_iff)
    with i show "prev (st ! (ts ! i)) \<subseteq> set (take i ts)"
      by (simp add: nth_append)
  qed
  have "length ts < length (ts @ [u])" by simp
  with assms have "prev (st ! ((ts @ [u]) ! length ts)) \<subseteq> set (take (length ts) (ts @ [u]))"
    unfolding topo_ordered_iff by blast
  then show "prev (st ! u) \<subseteq> set ts" by simp
qed

lemma topo_ordered_same_graph:
  assumes "same_graph st st'" and "set ts \<subseteq> {..<length st}" and "topo_ordered st ts"
  shows "topo_ordered st' ts"
proof -
  have "prev (st' ! (ts ! i)) = prev (st ! (ts ! i))" if "i < length ts" for i
  proof -
    from that assms(2) have "ts ! i < length st" by (auto simp: subset_iff)
    with assms(1) show ?thesis by (simp add: same_graph_def)
  qed
  with assms(3) show ?thesis by (simp add: topo_ordered_iff)
qed

lemma topo_ordered_not_operand:
  assumes "topo_ordered st ts" and "w \<in> set ts" and "u \<notin> set ts"
  shows "u \<notin> prev (st ! w)"
proof -
  from assms(2) obtain i where "i < length ts" "ts ! i = w"
    by (auto simp: in_set_conv_nth)
  with assms(1) have "prev (st ! w) \<subseteq> set (take i ts)"
    by (auto simp: topo_ordered_iff)
  with assms(3) show ?thesis by (auto dest: in_set_takeD)
qed

lemma wf_store_rule_operands:
  "wf_store st \<Longrightarrow> v < length st \<Longrightarrow> rule_operands (backward_rule (st ! v)) = prev (st ! v)"
  by (simp add: wf_store_def)

lemma replay_effect:
  "wf_store st \<Longrightarrow> distinct ts \<Longrightarrow> set ts \<subseteq> {..<length st} \<Longrightarrow> topo_ordered st ts \<Longrightarrow>
   replay st (rev ts) = Inr st' \<Longrightarrow>
     same_graph st st' \<and>
     (\<forall>x<length st. grad (st' ! x) =
        grad (st ! x) + (\<Sum>u\<leftarrow>ts. contrib st u x (grad (st' ! u))))"
proof (induction ts arbitrary: st rule: rev_induct)
  case Nil
  then show ?case by (simp add: same_graph_refl)
next
  case (snoc u ts)
  from snoc.prems have u: "u < length st" and ts: "set ts \<subseteq> {..<length st}"
    and dist: "distinct ts" and u_notin: "u \<notin> set ts" by auto
  note wf = \<open>wf_store st\<close>
  have ord: "topo_ordered st ts" and prev_u: "prev (st ! u) \<subseteq> set ts"
    using topo_ordered_butlast [OF snoc.prems(4)] by blast+
  from snoc.prems(5) obtain st1 where run: "run_backward st u = Inr st1"
    and rest: "replay st1 (rev ts) = Inr st'"
    by (auto split: sum.splits)
  have sg1: "same_graph st st1"
    and g1: "\<forall>x<length st. grad (st1 ! x) = grad (st ! x) + contrib st u x (grad (st ! u))"
    using run_backward_effect [OF wf u run] by blast+
  have len1: "length st1 = length st" using sg1 by (simp add: same_graph_def)
  have wf1: "wf_store st1" using sg1 wf by (rule wf_store_same_graph)
  have ord1: "topo_ordered st1 ts" using sg1 ts ord by (rule topo_ordered_same_graph)
  have ih: "same_graph st1 st'"
    "\<forall>x<length st. grad (st' ! x) =
        grad (st1 ! x) + (\<Sum>w\<leftarrow>ts. contrib st1 w x (grad (st' ! w)))"
    using snoc.IH [OF wf1 dist _ ord1 rest] ts len1 by auto
  have c1: "contrib st1 w x g = contrib st w x g" if "w \<in> set ts" for w x g
    using contrib_same_graph [OF sg1 wf] that ts by auto
  have sum1: "(\<Sum>w\<leftarrow>ts. contrib st1 w x (grad (st' ! w))) = (\<Sum>w\<leftarrow>ts. contrib st w x (grad (st' ! w)))"
    for x
    using c1 by (auto intro: arg_cong [where f = sum_list])
  have zero: "contrib st w u g = 0" if "w \<in> set ts" for w g
  proof -
    from that ts have "w < length st" by auto
    then have "rule_operands (backward_rule (st ! w)) = prev (st ! w)"
      using wf by (simp add: wf_store_rule_operands)
    moreover have "u \<notin> prev (st ! w)"
      using ord that u_notin by (rule topo_ordered_not_operand)
    ultimately show ?thesis by (simp add: contrib_not_operand)
  qed
  have "u \<notin> prev (st ! u)" using wf u by (auto dest: wf_store_prev_less)
  then have self0: "contrib st u u g = 0" for g
    using wf u by (simp add: contrib_not_operand wf_store_rule_operands)
  have "(\<Sum>w\<leftarrow>ts. contrib st w u (grad (st' ! w))) = 0"
    using zero by (simp cong: map_cong)
  then have gu: "grad (st' ! u) = grad (st ! u)"
    using ih(2) sum1 g1 u self0 by simp
  have "same_graph st st'" using sg1 ih(1) by (rule same_graph_trans)
  moreover have "grad (st' ! x) =
      grad (st ! x) + (\<Sum>w\<leftarrow>ts @ [u]. contrib st w x (grad (st' ! w)))"
    if "x < length st" for x
    using ih(2) sum1 g1 gu that by simp
  ultimately show ?case by blast
qed

lemma build_topo_top:
  assumes "wf_store st" and "set_iteration iter" and "t < length st"
  shows "distinct (snd (build_topo iter st t ({}, [])))"
    and "set (snd (build_topo iter st t ({}, []))) = reachable st t"
    and "topo_ordered st (snd (build_topo iter st t ({}, [])))"
    and "reachable st t \<subseteq> {..<length st}"
proof -
  have inv: "topo_inv st (Suc t) ({}, [])"
    by (simp add: topo_inv_def topo_ordered_def)
  have r: "topo_inv st (Suc t) (build_topo iter st t ({}, []))"
    "set (snd (build_topo iter st t ({}, []))) = reachable st t"
    using build_topo_correct(1) [OF assms _ inv] by simp_all
  from r(1) show "distinct (snd (build_topo iter st t ({}, [])))"
    by (simp add: topo_inv_def)
  show "set (snd (build_topo iter st t ({}, []))) = reachable st t" by (rule r(2))
  from r(1) show "topo_ordered st (snd (build_topo iter st t ({}, [])))"
    by (simp add: topo_inv_def)
  from r(1) have "set (snd (build_topo iter st t ({}, []))) \<subseteq> {..<length st}"
    by (simp add: topo_inv_def)
  then show "reachable st t \<subseteq> {..<length st}" by (simp only: r(2))
qed

lemma same_graph_seed: "same_graph st (st[t := (st ! t)\<lparr>grad := 1\<rparr>])"
proof -
  have "data (st[t := (st ! t)\<lparr>grad := 1\<rparr>] ! v) = data (st ! v) \<and>
      prev (st[t := (st ! t)\<lparr>grad := 1\<rparr>] ! v) = prev (st ! v) \<and>
      backward_rule (st[t := (st ! t)\<lparr>grad := 1\<rparr>] ! v) = backward_rule (st ! v)"
    if "v < length st" for v
    using that by (cases "v = t") simp_all
  then show ?thesis by (simp add: same_graph_def)
qed

lemma reachable_not_consumer_of_top:
  assumes "wf_store st" and "u \<in> reachable st t" and "u < length st"
  shows "t \<notin> prev (st ! u)"
proof
  assume "t \<in> prev (st ! u)"
  with assms(1,3) have "t < u" by (rule wf_store_prev_less)
  moreover from assms(1,2) have "u \<le> t" by (rule reachable_le)
  ultimately show False by simp
qed

lemma backward_effect:
  assumes wf: "wf_store st" and it: "set_iteration iter" and t: "t < length st"
    and bw: "backward iter st t = Inr st'"
  shows "same_graph st st'"
    and "grad (st' ! t) = 1"
    and "x < length st \<Longrightarrow> x \<noteq> t \<Longrightarrow>
           grad (st' ! x) =
             grad (st ! x) + (\<Sum>u\<in>reachable st t. contrib st u x (grad (st' ! u)))"
proof -
  let ?topo = "snd (build_topo iter st t ({}, []))"
  let ?st1 = "st[t := (st ! t)\<lparr>grad := 1\<rparr>]"
  note top = build_topo_top [OF wf it t]
  have sg1: "same_graph st ?st1" by (rule same_graph_seed)
  have wf1: "wf_store ?st1" using sg1 wf by (rule wf_store_same_graph)
  have in_range: "set ?topo \<subseteq> {..<length st}" using top(2,4) by simp
  have ord1: "topo_ordered ?st1 ?topo" using sg1 in_range top(3) by (rule topo_ordered_same_graph)
  from bw have rp: "replay ?st1 (rev ?topo) = Inr st'"
    by (simp add: backward_def Let_def)
  have eff: "same_graph ?st1 st'"
    "\<forall>x<length st. grad (st' ! x) =
        grad (?st1 ! x) + (\<Sum>u\<leftarrow>?topo. contrib ?st1 u x (grad (st' ! u)))"
    using replay_effect [OF wf1 top(1) _ ord1 rp] in_range by auto
  show "same_graph st st'" using sg1 eff(1) by (rule same_graph_trans)
  have sum_eq: "(\<Sum>u\<leftarrow>?topo. contrib ?st1 u x (grad (st' ! u))) =
      (\<Sum>u\<in>reachable st t. contrib st u x (grad (st' ! u)))" for x
  proof -
    have "(\<Sum>u\<leftarrow>?topo. contrib ?st1 u x (grad (st' ! u))) =
        (\<Sum>u\<in>set ?topo. contrib ?st1 u x (grad (st' ! u)))"
      using top(1) by (rule sum_list_distinct_conv_sum_set)
    also have "\<dots> = (\<Sum>u\<in>reachable st t. contrib st u x (grad (st' ! u)))"
      unfolding top(2)
      using contrib_same_graph [OF sg1 wf] top(4) by (intro sum.cong) auto
    finally show ?thesis .
  qed
  have "(\<Sum>u\<in>reachable st t. contrib st u t (grad (st' ! u))) = 0"
  proof (intro sum.neutral ballI)
    fix u assume u: "u \<in> reachable st t"
    with top(4) have ul: "u < length st" by auto
    with wf u have "t \<notin> prev (st ! u)" by (intro reachable_not_consumer_of_top)
    with wf ul show "contrib st u t (grad (st' ! u)) = 0"
      by (simp add: contrib_not_operand wf_store_rule_operands)
  qed
  with eff(2) sum_eq t show "grad (st' ! t) = 1" by simp
  show "grad (st' ! x) =
      grad (st ! x) + (\<Sum>u\<in>reachable st t. contrib st u x (grad (st' ! u)))"
    if "x < length st" "x \<noteq> t"
    using eff(2) sum_eq that by simp
qed

lemma reachable_subset: "wf_store st \<Longrightarrow> reachable st t \<subseteq> {..t}"
  by (auto dest: reachable_le)

lemma finite_reachable: "wf_store st \<Longrightarrow> finite (reachable st t)"
  by (rule finite_subset [OF reachable_subset]) simp_all

lemma sum_reachable_consumers:
  assumes "wf_store st" and "t < length st"
  shows "(\<Sum>u\<in>reachable st t. contrib st u x (g u)) = (\<Sum>u\<in>consumers st t x. contrib st u x (g u))"
proof (rule sum.mono_neutral_right)
  show "finite (reachable st t)" using assms(1) by (rule finite_reachable)
  show "consumers st t x \<subseteq> reachable st t" by (auto simp: consumers_def)
  show "\<forall>u\<in>reachable st t - consumers st t x. contrib st u x (g u) = 0"
  proof
    fix u assume u: "u \<in> reachable st t - consumers st t x"
    then have "u \<le> t" using assms(1) by (auto dest: reachable_le)
    with assms(2) have "u < length st" by simp
    with assms(1) have "rule_operands (backward_rule (st ! u)) = prev (st ! u)"
      by (rule wf_store_rule_operands)
    moreover from u have "x \<notin> prev (st ! u)" by (simp add: consumers_def)
    ultimately show "contrib st u x (g u) = 0" by (simp add: contrib_not_operand)
  qed
qed

lemma backward_consumers:
  assumes "wf_store st" and "set_iteration iter" and "t < length st"
    and "backward iter st t = Inr st'" and "x < length st" and "x \<noteq> t"
  shows "grad (st' ! x) =
     grad (st ! x) + (\<Sum>u\<in>consumers st t x. contrib st u x (grad (st' ! u)))"
  using backward_effect(3) [OF assms] sum_reachable_consumers [OF assms(1,3)] by simp


subsection \<open>The operations\<close>



lemma allocates_mul:
  "allocates st (value_mul st a (Ref b)) 1"
  "allocates st (value_mul st a (Num c)) 2"
  by (simp_all add: value_mul_def promote_def Value_def allocates_def)

lemma allocates_pow:
  "value_pow st a other = Inr res \<Longrightarrow> allocates st res 1"
  by (auto simp: value_pow_def Value_def allocates_def split: operand.splits sum.splits)

lemma allocates_neg: "allocates st (value_neg st a) 2"
  by (simp add: value_neg_def allocates_mul)











text \<open>
  The arenas that the operations build are well formed: the empty arena is, and every
  operation keeps it so.
\<close>

lemma wf_store_Nil: "wf_store []"
  by (simp add: wf_store_def)

lemma wf_store_snoc:
  assumes "wf_store st" and "prev n = rule_operands (backward_rule n)"
    and "\<forall>c\<in>prev n. c < length st"
  shows "wf_store (st @ [n])"
  unfolding wf_store_def
proof (intro allI impI)
  fix v assume "v < length (st @ [n])"
  then consider "v < length st" | "v = length st" by fastforce
  then show "prev ((st @ [n]) ! v) = rule_operands (backward_rule ((st @ [n]) ! v)) \<and>
      (\<forall>c\<in>prev ((st @ [n]) ! v). c < v)"
  proof cases
    case 1
    with assms(1) show ?thesis by (simp add: wf_store_def nth_append)
  next
    case 2
    with assms(2,3) show ?thesis by simp
  qed
qed

lemma wf_store_Value:
  "wf_store st \<Longrightarrow> set cs = rule_operands r \<Longrightarrow> \<forall>c\<in>set cs. c < length st \<Longrightarrow>
     wf_store (snd (Value st d cs r))"
  by (simp add: Value_def wf_store_snoc)

lemma wf_store_promote:
  "wf_store st \<Longrightarrow> valid_operand st other \<Longrightarrow>
     wf_store (snd (promote st other)) \<and> fst (promote st other) < length (snd (promote st other))
     \<and> length st \<le> length (snd (promote st other))"
  by (cases other) (simp_all add: promote_def valid_operand_def Value_def wf_store_snoc)

lemma wf_store_add:
  assumes "wf_store st" and "a < length st" and "valid_operand st other"
  shows "wf_store (snd (value_add st a other))"
proof -
  obtain b st1 where p: "promote st other = (b, st1)" by (cases "promote st other")
  with wf_store_promote [OF assms(1,3)] assms(2)
  have "wf_store st1" "b < length st1" "a < length st1" by auto
  then show ?thesis by (simp add: value_add_def p wf_store_Value)
qed

lemma wf_store_mul:
  assumes "wf_store st" and "a < length st" and "valid_operand st other"
  shows "wf_store (snd (value_mul st a other))"
proof -
  obtain b st1 where p: "promote st other = (b, st1)" by (cases "promote st other")
  with wf_store_promote [OF assms(1,3)] assms(2)
  have "wf_store st1" "b < length st1" "a < length st1" by auto
  then show ?thesis by (simp add: value_mul_def p wf_store_Value)
qed

lemma wf_store_pow:
  "wf_store st \<Longrightarrow> a < length st \<Longrightarrow> value_pow st a other = Inr (r, st') \<Longrightarrow> wf_store st'"
  by (auto simp: value_pow_def Value_def wf_store_snoc split: operand.splits sum.splits)

lemma wf_store_tanh_exp:
  "wf_store st \<Longrightarrow> a < length st \<Longrightarrow> wf_store (snd (value_tanh st a))"
  "wf_store st \<Longrightarrow> a < length st \<Longrightarrow> wf_store (snd (value_exp st a))"
  by (simp_all add: value_tanh_def value_exp_def Let_def wf_store_Value)

lemma valid_operand_Num: "valid_operand st (Num c)"
  by (simp add: valid_operand_def)

lemma wf_store_neg: "wf_store st \<Longrightarrow> a < length st \<Longrightarrow> wf_store (snd (value_neg st a))"
  by (simp add: value_neg_def wf_store_mul valid_operand_Num)

lemma wf_store_sub:
  assumes "wf_store st" and "a < length st" and "valid_operand st other"
  shows "wf_store (snd (value_sub st a other))"
proof (cases other)
  case (Num c)
  with assms show ?thesis by (simp add: value_sub_def wf_store_add valid_operand_Num)
next
  case (Ref b)
  obtain n st1 where n: "value_neg st b = (n, st1)" by (cases "value_neg st b")
  from assms(3) Ref have b: "b < length st" by (simp add: valid_operand_def)
  have wf1: "wf_store st1" using wf_store_neg [OF assms(1) b] n by simp
  have al: "allocates st (n, st1) 2" using allocates_neg [of st b] n by simp
  have "a < length st1" "valid_operand st1 (Ref n)"
    using al assms(2) by (auto simp: allocates_def valid_operand_def)
  with wf1 show ?thesis by (simp add: value_sub_def Ref n wf_store_add)
qed

lemma wf_store_rsub:
  assumes "wf_store st" and "a < length st"
  shows "wf_store (snd (value_rsub st a c))"
proof -
  obtain n st1 where n: "value_neg st a = (n, st1)" by (cases "value_neg st a")
  have wf1: "wf_store st1" using wf_store_neg [OF assms] n by simp
  have "allocates st (n, st1) 2" using allocates_neg [of st a] n by simp
  then have "n < length st1" by (auto simp: allocates_def)
  with wf1 show ?thesis
    by (simp add: value_rsub_def n value_radd_def wf_store_add valid_operand_Num)
qed

lemma wf_store_truediv:
  assumes "wf_store st" and "a < length st" and "valid_operand st other"
    and "value_truediv st a other = Inr (r, st')"
  shows "wf_store st'"
proof (cases other)
  case (Num c)
  with assms(4) obtain q where "value_mul st a (Num q) = (r, st')"
    by (auto simp: value_truediv_def split: sum.splits)
  with wf_store_mul [OF assms(1,2) valid_operand_Num, of q] show ?thesis by simp
next
  case (Ref b)
  with assms(4) obtain p st1 where p: "value_pow st b (Num (- 1)) = Inr (p, st1)"
    and m: "value_mul st1 a (Ref p) = (r, st')"
    by (auto simp: value_truediv_def split: sum.splits)
  from assms(3) Ref have b: "b < length st" by (simp add: valid_operand_def)
  have wf1: "wf_store st1" using assms(1) b p by (rule wf_store_pow)
  have "allocates st (p, st1) 1" using p by (rule allocates_pow)
  then have "a < length st1" "valid_operand st1 (Ref p)"
    using assms(2) by (auto simp: allocates_def valid_operand_def)
  with wf_store_mul [OF wf1] m show ?thesis by fastforce
qed

lemma wf_store_rtruediv:
  assumes "wf_store st" and "a < length st" and "value_rtruediv st a c = Inr (r, st')"
  shows "wf_store st'"
proof -
  from assms(3) obtain p st1 where p: "value_pow st a (Num (- 1)) = Inr (p, st1)"
    and m: "value_mul st1 p (Num c) = (r, st')"
    by (auto simp: value_rtruediv_def value_rmul_def split: sum.splits)
  have wf1: "wf_store st1" using assms(1,2) p by (rule wf_store_pow)
  have "allocates st (p, st1) 1" using p by (rule allocates_pow)
  then have "p < length st1" by (auto simp: allocates_def)
  with wf_store_mul [OF wf1 _ valid_operand_Num, of p c] m show ?thesis by simp
qed

lemma wf_store_field_update:
  assumes "wf_store st"
    and "prev n = prev (st ! x)" and "backward_rule n = backward_rule (st ! x)"
  shows "wf_store (st[x := n])"
  unfolding wf_store_def
proof (intro allI impI)
  fix v assume v: "v < length (st[x := n])"
  then have vl: "v < length st" by simp
  show "prev (st[x := n] ! v) = rule_operands (backward_rule (st[x := n] ! v)) \<and>
      (\<forall>c\<in>prev (st[x := n] ! v). c < v)"
  proof (cases "v = x")
    case True
    with vl assms show ?thesis by (simp add: wf_store_def)
  next
    case False
    with vl assms(1) show ?thesis by (simp add: wf_store_def)
  qed
qed

lemma built_wf_store: "built st \<Longrightarrow> wf_store st"
proof (induction rule: built.induct)
  case built_empty
  show ?case by (rule wf_store_Nil)
next
  case (built_Value st d)
  then show ?case by (simp add: wf_store_Value)
next
  case (built_add st self other)
  then show ?case by (simp add: wf_store_add)
next
  case (built_radd st self c)
  then show ?case by (simp add: value_radd_def wf_store_add valid_operand_Num)
next
  case (built_mul st self other)
  then show ?case by (simp add: wf_store_mul)
next
  case (built_rmul st self c)
  then show ?case by (simp add: value_rmul_def wf_store_mul valid_operand_Num)
next
  case (built_pow st self other r st')
  then show ?case by (blast intro: wf_store_pow)
next
  case (built_neg st self)
  then show ?case by (simp add: wf_store_neg)
next
  case (built_sub st self other)
  then show ?case by (simp add: wf_store_sub)
next
  case (built_rsub st self c)
  then show ?case by (simp add: wf_store_rsub)
next
  case (built_truediv st self other r st')
  then show ?case by (blast intro: wf_store_truediv)
next
  case (built_rtruediv st self c r st')
  then show ?case by (blast intro: wf_store_rtruediv)
next
  case (built_tanh st self)
  then show ?case by (simp add: wf_store_tanh_exp)
next
  case (built_exp st self)
  then show ?case by (simp add: wf_store_tanh_exp)
next
  case (built_set_grad st x g)
  then show ?case by (intro wf_store_field_update) simp_all
next
  case (built_set_data st x d)
  then show ?case by (intro wf_store_field_update) simp_all
qed

subsection \<open>The scenarios\<close>

lemma set_iteration_empty: "set_iteration iter \<Longrightarrow> iter v {} = []"
  by (auto simp: set_iteration_def)

lemma set_iteration_single:
  assumes "set_iteration iter"
  shows "iter v {x} = [x]"
proof -
  from assms have s: "set (iter v {x}) = {x}" and d: "distinct (iter v {x})"
    by (auto simp: set_iteration_def)
  from d have "card (set (iter v {x})) = length (iter v {x})" by (rule distinct_card)
  with s have "length (iter v {x}) = 1" by simp
  then obtain p where "iter v {x} = [p]"
    by (auto simp: length_Suc_conv)
  with s show ?thesis by simp
qed

lemma set_iteration_pair:
  assumes "set_iteration iter" and "x \<noteq> y"
  shows "iter v {x, y} = [x, y] \<or> iter v {x, y} = [y, x]"
proof -
  from assms have s: "set (iter v {x, y}) = {x, y}" and d: "distinct (iter v {x, y})"
    by (auto simp: set_iteration_def)
  from d have "card (set (iter v {x, y})) = length (iter v {x, y})" by (rule distinct_card)
  with s assms(2) have "length (iter v {x, y}) = 2" by simp
  then obtain p q where pq: "iter v {x, y} = [p, q]"
    by (auto simp: length_Suc_conv numeral_2_eq_2)
  with s d show ?thesis by (auto simp: doubleton_eq_iff)
qed

lemma build_topo_leaf:
  assumes "set_iteration iter" and "prev (s ! v) = {}" and "v \<notin> visited"
  shows "build_topo iter s v (visited, topo) = (insert v visited, topo @ [v])"
proof -
  have "children iter s v = []"
    using assms(1,2) by (simp add: children_def set_iteration_empty)
  with assms(3) show ?thesis by (simp add: build_topo.simps)
qed

lemma set_iteration_sorted: "set_iteration sorted_iteration"
  by (simp add: set_iteration_def sorted_iteration_def)

lemmas scenario_simps =
  Value_def value_add_def value_mul_def promote_def backward_def build_topo.simps
  children_def nth_append run_backward_def add_grad_def Let_def

lemma affine_backward:
  assumes "set_iteration iter"
  shows "case affine_scenario st of
           ((a, b, c, d, e, f, L), s) \<Rightarrow>
             data (s ! L) = - 8 \<and>
             (\<exists>s'. backward iter s L = Inr s' \<and>
               grad (s' ! a) = 6 \<and> grad (s' ! b) = - 4 \<and> grad (s' ! c) = - 2 \<and>
               grad (s' ! f) = 4 \<and> grad (s' ! d) = - 2 \<and> grad (s' ! e) = - 2)"
proof -
  let ?n = "length st"
  have e: "iter v {} = []" for v using assms by (rule set_iteration_empty)
  have o1: "iter (Suc (Suc (Suc ?n))) {?n, Suc ?n} = [?n, Suc ?n] \<or> iter (Suc (Suc (Suc ?n))) {?n, Suc ?n} = [Suc ?n, ?n]"
    using assms by (rule set_iteration_pair) simp
  have o2: "iter (Suc (Suc (Suc (Suc ?n)))) {Suc (Suc (Suc ?n)), Suc (Suc ?n)} = [Suc (Suc (Suc ?n)), Suc (Suc ?n)] \<or>
      iter (Suc (Suc (Suc (Suc ?n)))) {Suc (Suc (Suc ?n)), Suc (Suc ?n)} = [Suc (Suc ?n), Suc (Suc (Suc ?n))]"
    using assms by (rule set_iteration_pair) simp
  have o3: "iter (Suc (Suc (Suc (Suc (Suc (Suc ?n))))))
        {Suc (Suc (Suc (Suc ?n))), Suc (Suc (Suc (Suc (Suc ?n))))} =
        [Suc (Suc (Suc (Suc ?n))), Suc (Suc (Suc (Suc (Suc ?n))))] \<or>
      iter (Suc (Suc (Suc (Suc (Suc (Suc ?n))))))
        {Suc (Suc (Suc (Suc ?n))), Suc (Suc (Suc (Suc (Suc ?n))))} =
        [Suc (Suc (Suc (Suc (Suc ?n)))), Suc (Suc (Suc (Suc ?n)))]"
    using assms by (rule set_iteration_pair) simp
  from o1 o2 o3 show ?thesis
    by (elim disjE) (simp_all add: affine_scenario_def scenario_simps e)
qed

lemma diamond_backward:
  assumes "set_iteration iter"
  shows "case diamond_scenario st of
           ((x, y, z), s) \<Rightarrow>
             data (s ! z) = 16 \<and>
             (\<exists>s'. backward iter s z = Inr s' \<and> grad (s' ! y) = 8 \<and> grad (s' ! x) = 16)"
proof -
  have e: "iter v {} = []" for v using assms by (rule set_iteration_empty)
  have o: "iter u {v} = [v]" for u v using assms by (rule set_iteration_single)
  show ?thesis
    by (simp add: diamond_scenario_def scenario_simps e o)
qed


lemma chain_backward_twice:
  assumes "set_iteration iter"
  shows "case chain_scenario st of
           ((a, b, c, d, L), s) \<Rightarrow>
             (\<exists>s1 s2. backward iter s L = Inr s1 \<and> backward iter s1 L = Inr s2 \<and>
                grad (s1 ! a) = 3 \<and> grad (s2 ! a) = 9 \<and>
                grad (s1 ! c) = 1 \<and> grad (s2 ! c) = 2)"
proof -
  let ?n = "length st"
  have e: "iter v {} = []" for v using assms by (rule set_iteration_empty)
  have o1: "iter (Suc (Suc (Suc ?n))) {?n, Suc ?n} = [?n, Suc ?n] \<or> iter (Suc (Suc (Suc ?n))) {?n, Suc ?n} = [Suc ?n, ?n]"
    using assms by (rule set_iteration_pair) simp
  have o2: "iter (Suc (Suc (Suc (Suc ?n)))) {Suc (Suc (Suc ?n)), Suc (Suc ?n)} = [Suc (Suc (Suc ?n)), Suc (Suc ?n)] \<or>
      iter (Suc (Suc (Suc (Suc ?n)))) {Suc (Suc (Suc ?n)), Suc (Suc ?n)} = [Suc (Suc ?n), Suc (Suc (Suc ?n))]"
    using assms by (rule set_iteration_pair) simp
  from o1 o2 show ?thesis
    by (elim disjE) (simp_all add: chain_scenario_def scenario_simps e)
qed

lemma leaves_eq:
  "leaves ds = map (\<lambda>d. \<lparr>data = d, grad = 0, prev = {}, backward_rule = NoOp\<rparr>) ds"
proof -
  have "fold (\<lambda>d st. snd (Value st d [] NoOp)) ds st =
      st @ map (\<lambda>d. \<lparr>data = d, grad = 0, prev = {}, backward_rule = NoOp\<rparr>) ds" for st
    by (induction ds arbitrary: st) (simp_all add: Value_def)
  then show ?thesis by (simp add: leaves_def)
qed

lemma scenario_indices:
  "fst (affine_scenario []) = (0, 1, 2, 3, 4, 5, 6)"
  "fst (diamond_scenario []) = (0, 1, 2)"
  "fst (square_scenario []) = (0, 1)"
  "fst (chain_scenario []) = (0, 1, 2, 3, 4)"
  by (simp_all add: affine_scenario_def diamond_scenario_def square_scenario_def
      chain_scenario_def Value_def value_add_def value_mul_def promote_def)

lemma built_leaves: "built (leaves ds)"
proof -
  have "built (fold (\<lambda>d st. snd (Value st d [] NoOp)) ds st)" if "built st" for st
    using that by (induction ds arbitrary: st) (simp_all add: built_Value)
  then show ?thesis by (simp add: leaves_def built_empty)
qed


lemma built_diamond: "built (snd (diamond_scenario []))"
proof -
  let ?s1 = "leaves [2]"
  let ?s2 = "snd (value_add ?s1 0 (Ref 0))"
  have "snd (diamond_scenario []) = snd (value_mul ?s2 1 (Ref 1))"
    by (simp add: diamond_scenario_def leaves_def Value_def value_add_def value_mul_def
        promote_def)
  moreover have b2: "built ?s2"
    by (intro built_add built_leaves) (simp_all add: leaves_eq valid_operand_def)
  have "length ?s2 = 2" by (simp add: leaves_eq value_add_def promote_def Value_def)
  with b2 have "built (snd (value_mul ?s2 1 (Ref 1)))"
    by (intro built_mul) (simp_all add: valid_operand_def)
  ultimately show ?thesis by simp
qed

lemma built_chain: "built (snd (chain_scenario []))"
proof -
  let ?s3 = "leaves [2, 3, 10]"
  let ?s4 = "snd (value_mul ?s3 0 (Ref 1))"
  have "snd (chain_scenario []) = snd (value_add ?s4 3 (Ref 2))"
    by (simp add: chain_scenario_def leaves_def Value_def value_add_def value_mul_def
        promote_def eval_nat_numeral)
  moreover have b4: "built ?s4"
    by (intro built_mul built_leaves) (simp_all add: leaves_eq valid_operand_def)
  have "length ?s4 = 4" by (simp add: leaves_eq value_mul_def promote_def Value_def)
  with b4 have "built (snd (value_add ?s4 3 (Ref 2)))"
    by (intro built_add) (simp_all add: valid_operand_def)
  ultimately show ?thesis by simp
qed

lemma diamond_store:
  "snd (diamond_scenario []) =
     [\<lparr>data = 2, grad = 0, prev = {}, backward_rule = NoOp\<rparr>,
      \<lparr>data = 4, grad = 0, prev = {0}, backward_rule = AddRule 0 0\<rparr>,
      \<lparr>data = 16, grad = 0, prev = {1}, backward_rule = MulRule 1 1\<rparr>]"
  by (simp add: diamond_scenario_def Value_def value_add_def value_mul_def promote_def)


lemma chain_store:
  "snd (chain_scenario []) =
     [\<lparr>data = 2, grad = 0, prev = {}, backward_rule = NoOp\<rparr>,
      \<lparr>data = 3, grad = 0, prev = {}, backward_rule = NoOp\<rparr>,
      \<lparr>data = 10, grad = 0, prev = {}, backward_rule = NoOp\<rparr>,
      \<lparr>data = 6, grad = 0, prev = {0, 1}, backward_rule = MulRule 0 1\<rparr>,
      \<lparr>data = 16, grad = 0, prev = {3, 2}, backward_rule = AddRule 3 2\<rparr>]"
  by (simp add: chain_scenario_def Value_def value_add_def value_mul_def promote_def
      numeral_3_eq_3 numeral_2_eq_2)

lemma wf_chain: "wf_store (snd (chain_scenario []))"
  using built_chain by (rule built_wf_store)

lemma chain_consumers: "consumers (snd (chain_scenario [])) 4 2 \<subseteq> {4}"
proof
  fix u assume u: "u \<in> consumers (snd (chain_scenario [])) 4 2"
  then have "u \<le> 4" using reachable_le [OF wf_chain] by (simp add: consumers_def)
  then have "u = 0 \<or> u = 1 \<or> u = 2 \<or> u = 3 \<or> u = 4" by auto
  moreover from u have "2 \<in> prev (snd (chain_scenario []) ! u)" by (simp add: consumers_def)
  ultimately show "u \<in> {4}" by (auto simp: chain_store)
qed

subsection \<open>A constant on the left of a subtraction or a division\<close>












section \<open>The claims\<close>



text \<open>
  C2. On an arena built by the operations (every operand allocated before the node
  that uses it, hence acyclic), the order that \<open>backward()\<close> builds from a terminal
  \<open>t\<close> holds every node reachable from \<open>t\<close> exactly once, and every operand of a node
  of the order stands strictly before that node, in whatever order the operand sets
  are iterated.
\<close>

theorem build_topo_topological_order:
  assumes "built st" and "set_iteration iter" and "t < length st"
  shows "distinct (snd (build_topo iter st t ({}, []))) \<and>
         set (snd (build_topo iter st t ({}, []))) = reachable st t \<and>
         topo_ordered st (snd (build_topo iter st t ({}, [])))"
  using build_topo_top [OF built_wf_store [OF assms(1)] assms(2,3)] by simp

theorem build_topo_topological_order_witness:
  "built (snd (diamond_scenario [])) \<and> set_iteration sorted_iteration \<and>
   2 < length (snd (diamond_scenario [])) \<and>
   snd (build_topo sorted_iteration (snd (diamond_scenario [])) 2 ({}, [])) = [0, 1, 2] \<and>
   reachable (snd (diamond_scenario [])) 2 = {0, 1, 2} \<and>
   topo_ordered (snd (diamond_scenario [])) [0, 1, 2]"
proof -
  have t: "snd (build_topo sorted_iteration (snd (diamond_scenario [])) 2 ({}, [])) = [0, 1, 2]"
    by (simp add: diamond_store build_topo.simps children_def sorted_iteration_def)
  have l: "2 < length (snd (diamond_scenario []))" by (simp add: diamond_store)
  from build_topo_topological_order [OF built_diamond set_iteration_sorted l] t
  show ?thesis using built_diamond set_iteration_sorted l by auto
qed

text \<open>
  C3, as the code has it. In the affine scenario \<open>a = Value(2.0)\<close>, \<open>b = Value(-3.0)\<close>,
  \<open>c = Value(10.0)\<close>, \<open>d = a*b\<close>, \<open>e = d+c\<close>, \<open>f = Value(-2.0)\<close>, \<open>L = e*f\<close> the
  forward value is \<open>L.data = -8.0\<close>, and \<open>L.backward()\<close> returns with \<open>a.grad = 6.0\<close>,
  \<open>b.grad = -4.0\<close>, \<open>c.grad = -2.0\<close>, \<open>f.grad = 4.0\<close>, \<open>d.grad = -2.0\<close> and
  \<open>e.grad = -2.0\<close>, in whatever order the operand sets are iterated.
\<close>

theorem affine_scenario_backward:
  assumes "set_iteration iter"
  shows "case affine_scenario st of
           ((a, b, c, d, e, f, L), s) \<Rightarrow>
             data (s ! L) = - 8 \<and>
             (\<exists>s'. backward iter s L = Inr s' \<and>
               grad (s' ! a) = 6 \<and> grad (s' ! b) = - 4 \<and> grad (s' ! c) = - 2 \<and>
               grad (s' ! f) = 4 \<and> grad (s' ! d) = - 2 \<and> grad (s' ! e) = - 2)"
  using assms by (rule affine_backward)

theorem affine_scenario_backward_witness:
  "set_iteration sorted_iteration \<and>
   fst (affine_scenario []) = (0, 1, 2, 3, 4, 5, 6) \<and>
   data (snd (affine_scenario []) ! 6) = - 8 \<and>
   \<not> isl (backward sorted_iteration (snd (affine_scenario [])) 6) \<and>
   grad (projr (backward sorted_iteration (snd (affine_scenario [])) 6) ! 0) = 6 \<and>
   grad (projr (backward sorted_iteration (snd (affine_scenario [])) 6) ! 1) = - 4"
  using affine_scenario_backward [OF set_iteration_sorted, where st = "[]"]
    set_iteration_sorted scenario_indices(1)
  by (auto split: prod.splits)

text \<open>
  C3 as stated fails: the forward value of the affine scenario is \<open>-8.0\<close>, not \<open>4.0\<close>
  (\<open>4.0\<close> is \<open>e.data\<close>).
\<close>

theorem affine_scenario_data_counterexample:
  "fst (affine_scenario []) = (0, 1, 2, 3, 4, 5, 6) \<and>
   data (snd (affine_scenario []) ! 6) = - 8 \<and>
   data (snd (affine_scenario []) ! 6) \<noteq> 4 \<and>
   data (snd (affine_scenario []) ! 4) = 4"
  by (simp add: affine_scenario_def Value_def value_add_def value_mul_def promote_def)

text \<open>
  C4, as the code has it. In the diamond graph \<open>x = Value(2.0)\<close>, \<open>y = x + x\<close>,
  \<open>z = y * y\<close>, \<open>z.backward()\<close> from zero gradients returns with \<open>x.grad = 16.0\<close>
  (and \<open>y.grad = 8.0\<close>), the two paths from \<open>z\<close> to \<open>x\<close> accumulating.
\<close>

theorem diamond_grad:
  assumes "set_iteration iter"
  shows "case diamond_scenario st of
           ((x, y, z), s) \<Rightarrow>
             data (s ! z) = 16 \<and>
             (\<exists>s'. backward iter s z = Inr s' \<and> grad (s' ! y) = 8 \<and> grad (s' ! x) = 16)"
  using assms by (rule diamond_backward)

theorem diamond_grad_witness:
  "set_iteration sorted_iteration \<and>
   fst (diamond_scenario []) = (0, 1, 2) \<and>
   data (snd (diamond_scenario []) ! 2) = 16 \<and>
   \<not> isl (backward sorted_iteration (snd (diamond_scenario [])) 2) \<and>
   grad (projr (backward sorted_iteration (snd (diamond_scenario [])) 2) ! 1) = 8 \<and>
   grad (projr (backward sorted_iteration (snd (diamond_scenario [])) 2) ! 0) = 16"
  using diamond_grad [OF set_iteration_sorted, where st = "[]"]
    set_iteration_sorted scenario_indices(2)
  by (auto split: prod.splits)

text \<open>C4 as stated fails: in the diamond graph \<open>x.grad\<close> is \<open>16.0\<close>, not \<open>32.0\<close>.\<close>

theorem diamond_grad_counterexample:
  "fst (diamond_scenario []) = (0, 1, 2) \<and>
   \<not> isl (backward sorted_iteration (snd (diamond_scenario [])) 2) \<and>
   grad (projr (backward sorted_iteration (snd (diamond_scenario [])) 2) ! 0) = 16 \<and>
   grad (projr (backward sorted_iteration (snd (diamond_scenario [])) 2) ! 0) \<noteq> 32"
  using diamond_backward [OF set_iteration_sorted, where st = "[]"] scenario_indices(2)
  by (auto split: prod.splits)

text \<open>
  C5, as the code has it. \<open>backward()\<close> resets nothing but the terminal's gradient,
  which it sets to \<open>1.0\<close>: a second call from the same terminal \<open>t\<close> adds to the gradient
  that the first call left on every other node \<open>x\<close>, again the contributions of the
  operations downstream of \<open>x\<close>. When \<open>x.grad\<close> was zero before the first call and the
  terminal is the only operation that uses \<open>x\<close>, the second call doubles \<open>x.grad\<close>.
\<close>

theorem backward_twice_accumulates:
  assumes "set_iteration iter" and "built st" and "t < length st"
    and "x < length st" and "x \<noteq> t"
    and "backward iter st t = Inr st1" and "backward iter st1 t = Inr st2"
  shows "grad (st2 ! x) =
           grad (st1 ! x) + (\<Sum>u\<in>consumers st t x. contrib st u x (grad (st2 ! u))) \<and>
         grad (st1 ! t) = 1 \<and> grad (st2 ! t) = 1 \<and>
         (grad (st ! x) = 0 \<and> consumers st t x \<subseteq> {t} \<longrightarrow>
            grad (st2 ! x) = 2 * grad (st1 ! x))"
proof -
  note wf = built_wf_store [OF \<open>built st\<close>]
  note it = \<open>set_iteration iter\<close> and t = \<open>t < length st\<close>
  note b1 = \<open>backward iter st t = Inr st1\<close> and b2 = \<open>backward iter st1 t = Inr st2\<close>
  have sg: "same_graph st st1" using wf it t b1 by (rule backward_effect(1))
  have wf1: "wf_store st1" using sg wf by (rule wf_store_same_graph)
  have len: "length st1 = length st" using sg by (simp add: same_graph_def)
  have g1: "grad (st1 ! t) = 1" using wf it t b1 by (rule backward_effect(2))
  have g2: "grad (st2 ! t) = 1" using backward_effect(2) [OF wf1 it _ b2] t len by simp
  have e1: "grad (st1 ! x) =
      grad (st ! x) + (\<Sum>u\<in>consumers st t x. contrib st u x (grad (st1 ! u)))"
    using wf it t b1 \<open>x < length st\<close> \<open>x \<noteq> t\<close> by (rule backward_consumers)
  have edges_eq: "edges st1 = edges st"
    using sg by (auto simp: edges_def same_graph_def)
  have cons_eq: "consumers st1 t x = consumers st t x"
  proof -
    have r: "reachable st1 t = reachable st t" by (simp add: reachable_def edges_eq)
    have "prev (st1 ! u) = prev (st ! u)" if "u \<in> reachable st t" for u
    proof -
      from that wf have "u \<le> t" by (rule reachable_le [rotated])
      with t sg show ?thesis by (simp add: same_graph_def)
    qed
    then show ?thesis by (auto simp: consumers_def r)
  qed
  have "grad (st2 ! x) =
      grad (st1 ! x) + (\<Sum>u\<in>consumers st1 t x. contrib st1 u x (grad (st2 ! u)))"
    using backward_consumers [OF wf1 it _ b2, of x] t len \<open>x < length st\<close> \<open>x \<noteq> t\<close> by simp
  also have "(\<Sum>u\<in>consumers st1 t x. contrib st1 u x (grad (st2 ! u))) =
      (\<Sum>u\<in>consumers st t x. contrib st u x (grad (st2 ! u)))"
    unfolding cons_eq
  proof (rule sum.cong [OF refl])
    fix u assume "u \<in> consumers st t x"
    then have "u \<in> reachable st t" by (simp add: consumers_def)
    with wf have "u \<le> t" by (rule reachable_le)
    with t have "u < length st" by simp
    with sg wf show "contrib st1 u x (grad (st2 ! u)) = contrib st u x (grad (st2 ! u))"
      by (rule contrib_same_graph)
  qed
  finally have e2: "grad (st2 ! x) =
      grad (st1 ! x) + (\<Sum>u\<in>consumers st t x. contrib st u x (grad (st2 ! u)))" .
  have dbl: "grad (st2 ! x) = 2 * grad (st1 ! x)"
    if h: "grad (st ! x) = 0 \<and> consumers st t x \<subseteq> {t}"
  proof -
    from h have c: "consumers st t x = {} \<or> consumers st t x = {t}" by auto
    then show ?thesis
    proof
      assume "consumers st t x = {}"
      with e1 e2 h show ?thesis by simp
    next
      assume "consumers st t x = {t}"
      with e1 e2 h g1 g2 show ?thesis by simp
    qed
  qed
  show ?thesis using e2 g1 g2 dbl by blast
qed

theorem backward_twice_accumulates_witness:
  "set_iteration sorted_iteration \<and> built (snd (chain_scenario [])) \<and>
   4 < length (snd (chain_scenario [])) \<and> 2 < length (snd (chain_scenario [])) \<and>
   (2::nat) \<noteq> 4 \<and>
   \<not> isl (backward sorted_iteration (snd (chain_scenario [])) 4) \<and>
   \<not> isl (backward sorted_iteration
            (projr (backward sorted_iteration (snd (chain_scenario [])) 4)) 4) \<and>
   grad (snd (chain_scenario []) ! 2) = 0 \<and>
   consumers (snd (chain_scenario [])) 4 2 \<subseteq> {4} \<and>
   grad (projr (backward sorted_iteration (snd (chain_scenario [])) 4) ! 2) = 1 \<and>
   grad (projr (backward sorted_iteration
            (projr (backward sorted_iteration (snd (chain_scenario [])) 4)) 4) ! 2) =
     2 * grad (projr (backward sorted_iteration (snd (chain_scenario [])) 4) ! 2)"
proof -
  let ?C = "snd (chain_scenario [])"
  let ?i = "sorted_iteration"
  from chain_backward_twice [OF set_iteration_sorted, where st = "[]"]
    scenario_indices(4)
  obtain s1 s2 where b1: "backward ?i ?C 4 = Inr s1" and b2: "backward ?i s1 4 = Inr s2"
    and g: "grad (s1 ! 2) = 1" "grad (s2 ! 2) = 2"
    by (auto split: prod.splits)
  have l: "4 < length ?C" "2 < length ?C" and z: "grad (?C ! 2) = 0"
    by (simp_all add: chain_store)
  have n: "(2::nat) \<noteq> 4" by simp
  from backward_twice_accumulates [OF set_iteration_sorted built_chain l n b1 b2] z
    chain_consumers
  have "grad (s2 ! 2) = 2 * grad (s1 ! 2)" by blast
  then show ?thesis
    using set_iteration_sorted built_chain l z chain_consumers b1 b2 g by simp
qed

text \<open>
  C5 as stated fails. In \<open>a = Value(2.0)\<close>, \<open>b = Value(3.0)\<close>, \<open>c = Value(10.0)\<close>,
  \<open>d = a*b\<close>, \<open>L = d+c\<close> the leaf \<open>a\<close> is reached through \<open>d\<close>, whose gradient is not
  reset either: \<open>a.grad\<close> is \<open>3.0\<close> after one call of \<open>L.backward()\<close> and \<open>9.0\<close> after
  two.
\<close>

theorem backward_twice_counterexample:
  "fst (chain_scenario []) = (0, 1, 2, 3, 4) \<and>
   \<not> isl (backward sorted_iteration (snd (chain_scenario [])) 4) \<and>
   \<not> isl (backward sorted_iteration
            (projr (backward sorted_iteration (snd (chain_scenario [])) 4)) 4) \<and>
   grad (projr (backward sorted_iteration (snd (chain_scenario [])) 4) ! 0) = 3 \<and>
   grad (projr (backward sorted_iteration
            (projr (backward sorted_iteration (snd (chain_scenario [])) 4)) 4) ! 0) = 9 \<and>
   grad (projr (backward sorted_iteration
            (projr (backward sorted_iteration (snd (chain_scenario [])) 4)) 4) ! 0) \<noteq>
     2 * grad (projr (backward sorted_iteration (snd (chain_scenario [])) 4) ! 0)"
  using chain_backward_twice [OF set_iteration_sorted, where st = "[]"]
    scenario_indices(4)
  by (auto split: prod.splits)

text \<open>
  C6. Two distinct leaves \<open>a\<close> and \<open>b\<close> with the same data (and here the same in every
  field, gradient zero) are two nodes: the operand set of \<open>a + b\<close> holds both, the
  traversal from \<open>a + b\<close> emits both, and \<open>backward()\<close> on \<open>a + b\<close> returns with gradient
  \<open>1.0\<close> on each of them.
\<close>

theorem equal_data_leaves_distinct:
  assumes "set_iteration iter" and "a < length st" and "b < length st" and "a \<noteq> b"
    and "st ! a = \<lparr>data = d, grad = 0, prev = {}, backward_rule = NoOp\<rparr>"
    and "st ! b = \<lparr>data = d, grad = 0, prev = {}, backward_rule = NoOp\<rparr>"
  shows "case value_add st a (Ref b) of
           (c, s) \<Rightarrow>
             prev (s ! c) = {a, b} \<and> card (prev (s ! c)) = 2 \<and>
             a \<in> set (snd (build_topo iter s c ({}, []))) \<and>
             b \<in> set (snd (build_topo iter s c ({}, []))) \<and>
             (\<exists>s'. backward iter s c = Inr s' \<and> grad (s' ! a) = 1 \<and> grad (s' ! b) = 1)"
proof -
  let ?n = "length st"
  let ?N = "\<lparr>data = 2 * d, grad = 0, prev = {a, b}, backward_rule = AddRule a b\<rparr>"
  let ?s = "st @ [?N]"
  note it = assms(1) and a = assms(2) and b = assms(3) and ab = assms(4)
  have res: "value_add st a (Ref b) = (?n, ?s)"
    using assms(5,6) by (simp add: value_add_def promote_def Value_def)
  have nth: "?s ! ?n = ?N" "?s ! a = st ! a" "?s ! b = st ! b"
    using a b by (simp_all add: nth_append)
  have pa: "prev (?s ! a) = {}" and pb: "prev (?s ! b) = {}"
    using assms(5,6) by (simp_all add: nth)
  have an: "a \<noteq> ?n" "b \<noteq> ?n" using a b by simp_all
  have ch: "children iter ?s ?n = iter ?n {a, b}"
    by (simp add: children_def)
  have order: "iter ?n {a, b} = [a, b] \<or> iter ?n {a, b} = [b, a]"
    using it ab by (rule set_iteration_pair)
  have topo: "snd (build_topo iter ?s ?n ({}, [])) = [a, b, ?n] \<or>
      snd (build_topo iter ?s ?n ({}, [])) = [b, a, ?n]"
    using order
  proof
    assume o: "iter ?n {a, b} = [a, b]"
    have "build_topo iter ?s ?n ({}, []) = ({b, a, ?n}, [a, b, ?n])"
      using an ab
      by (simp add: build_topo.simps [of iter ?s ?n] ch o
          build_topo_leaf [OF it pa] build_topo_leaf [OF it pb])
    then show ?thesis by simp
  next
    assume o: "iter ?n {a, b} = [b, a]"
    have "build_topo iter ?s ?n ({}, []) = ({a, b, ?n}, [b, a, ?n])"
      using an ab
      by (simp add: build_topo.simps [of iter ?s ?n] ch o
          build_topo_leaf [OF it pa] build_topo_leaf [OF it pb])
    then show ?thesis by simp
  qed
  define s1 where "s1 = ?s[?n := (?s ! ?n)\<lparr>grad := 1\<rparr>]"
  define s2 where "s2 = add_grad (add_grad s1 a 1) b 1"
  have len1: "length s1 = Suc ?n" by (simp add: s1_def)
  have n1: "s1 ! ?n = ?N\<lparr>grad := 1\<rparr>" "s1 ! a = st ! a" "s1 ! b = st ! b"
    using a b an by (simp_all add: s1_def nth_append)
  have "grad (add_grad s1 a 1 ! ?n) = 1"
    using an by (simp add: grad_add_grad len1 n1)
  then have r1: "run_backward s1 ?n = Inr s2"
    by (simp add: run_backward_def n1 s2_def)
  have sg: "same_graph s1 s2"
    unfolding s2_def by (rule same_graph_trans [OF same_graph_add_grad same_graph_add_grad])
  have rule2: "backward_rule (s2 ! a) = NoOp" "backward_rule (s2 ! b) = NoOp"
    using sg a b assms(5,6) by (simp_all add: same_graph_def len1 n1)
  have r2: "run_backward s2 a = Inr s2" "run_backward s2 b = Inr s2"
    using rule2 by (simp_all add: run_backward_def)
  have ga: "grad (s2 ! a) = 1"
    using a b ab assms(5) by (simp add: s2_def grad_add_grad length_add_grad len1 n1)
  have gb: "grad (s2 ! b) = 1"
    using a b ab assms(6) by (simp add: s2_def grad_add_grad length_add_grad len1 n1)
  have s1_eq: "st @ [\<lparr>data = 2 * d, grad = 1, prev = {a, b}, backward_rule = AddRule a b\<rparr>] = s1"
    by (simp add: s1_def)
  have bw: "backward iter ?s ?n = Inr s2"
    using topo r1 r2 by (auto simp: backward_def Let_def s1_eq)
  have "card {a, b} = 2" using ab by simp
  then show ?thesis
    unfolding res using topo bw ga gb by (auto simp: nth)
qed

theorem equal_data_leaves_distinct_witness:
  "set_iteration sorted_iteration \<and> 0 < length (leaves [1, 1]) \<and>
   1 < length (leaves [1, 1]) \<and> (0::nat) \<noteq> 1 \<and>
   leaves [1, 1] ! 0 = \<lparr>data = 1, grad = 0, prev = {}, backward_rule = NoOp\<rparr> \<and>
   leaves [1, 1] ! 1 = \<lparr>data = 1, grad = 0, prev = {}, backward_rule = NoOp\<rparr> \<and>
   fst (value_add (leaves [1, 1]) 0 (Ref 1)) = 2 \<and>
   prev (snd (value_add (leaves [1, 1]) 0 (Ref 1)) ! 2) = {0, 1} \<and>
   0 \<in> set (snd (build_topo sorted_iteration (snd (value_add (leaves [1, 1]) 0 (Ref 1))) 2
                ({}, []))) \<and>
   1 \<in> set (snd (build_topo sorted_iteration (snd (value_add (leaves [1, 1]) 0 (Ref 1))) 2
                ({}, []))) \<and>
   \<not> isl (backward sorted_iteration (snd (value_add (leaves [1, 1]) 0 (Ref 1))) 2) \<and>
   grad (projr (backward sorted_iteration (snd (value_add (leaves [1, 1]) 0 (Ref 1))) 2) ! 0)
     = 1 \<and>
   grad (projr (backward sorted_iteration (snd (value_add (leaves [1, 1]) 0 (Ref 1))) 2) ! 1)
     = 1"
proof -
  have h: "0 < length (leaves [1, 1])" "1 < length (leaves [1, 1])" "(0::nat) \<noteq> 1"
    "leaves [1, 1] ! 0 = \<lparr>data = 1, grad = 0, prev = {}, backward_rule = NoOp\<rparr>"
    "leaves [1, 1] ! 1 = \<lparr>data = 1, grad = 0, prev = {}, backward_rule = NoOp\<rparr>"
    by (simp_all add: leaves_eq)
  have f: "fst (value_add (leaves [1, 1]) 0 (Ref 1)) = 2"
    by (simp add: leaves_eq value_add_def promote_def Value_def)
  obtain s where v: "value_add (leaves [1, 1]) 0 (Ref 1) = (2, s)"
    using f by (cases "value_add (leaves [1, 1]) 0 (Ref 1)") simp
  note r = equal_data_leaves_distinct [OF set_iteration_sorted h, unfolded v prod.case]
  from r obtain s' where s': "backward sorted_iteration s 2 = Inr s'"
    "grad (s' ! 0) = 1" "grad (s' ! 1) = 1"
    by blast
  have "\<not> isl (backward sorted_iteration s 2)"
    "grad (projr (backward sorted_iteration s 2) ! 0) = 1"
    "grad (projr (backward sorted_iteration s 2) ! 1) = 1"
    using s' by simp_all
  with r set_iteration_sorted h show ?thesis
    unfolding v fst_conv snd_conv by blast
qed












end
